theory Spec2Isabelle
  imports Main "HOL-Library.Multiset"
begin

section \<open>Data model\<close>

text \<open>
  Identities are the string form of a UUID.  A document navigator (\<open>SimpleDocNav\<close> in the
  source) exposes the optional identity of a document (\<open>ds.id\<close>), its remaining fields and
  the named lineage documents nested in it (\<open>ds.sources\<close>).
\<close>

type_synonym uuid = string

datatype 'b docnav =
  DocNav (nav_id: "uuid option") (nav_body: 'b) (nav_sources: "(string \<times> 'b docnav) list")

text \<open>\<open>ds.doc\<close> is the whole document; \<open>ds.doc_without_lineage_sources\<close> has the lineage emptied.\<close>

definition doc_without_lineage_sources :: "'b docnav \<Rightarrow> 'b docnav" where
  "doc_without_lineage_sources ds = DocNav (nav_id ds) (nav_body ds) []"

text \<open>A product: its name and its measurement table (name to definition).\<close>

record 'm product =
  name :: string
  measurements :: "(string \<times> 'm) list"

text \<open>
  A \<open>Dataset\<close> object: \<open>Dataset(product, doc, uris, sources)\<close>.  Lineage sources are object
  references, modelled as positions in a store of constructed objects.  Catalogued datasets
  also carry the time at which they were archived (\<open>None\<close> while active).
\<close>

record ('b, 'm) dataset =
  ds_type :: "'m product"
  metadata_doc :: "'b docnav"
  uris :: "string list"
  sources :: "(string \<times> nat) list"
  archived_time :: "int option"

definition ds_id :: "('b, 'm) dataset \<Rightarrow> uuid option" where
  "ds_id d = nav_id (metadata_doc d)"

definition is_archived :: "('b, 'm) dataset \<Rightarrow> bool" where
  "is_archived d = (archived_time d \<noteq> None)"

definition Dataset ::
  "'m product \<Rightarrow> 'b docnav \<Rightarrow> string list \<Rightarrow> (string \<times> nat) list \<Rightarrow> ('b, 'm) dataset" where
  "Dataset p doc us srcs =
     \<lparr>ds_type = p, metadata_doc = doc, uris = us, sources = srcs, archived_time = None\<rparr>"

section \<open>Measurement consistency (\<open>check_dataset_consistent\<close>, \<open>load_datasets\<close>)\<close>

text \<open>
  \<open>dataset.measurements\<close> is read from the document by the dataset class, which is outside
  the files at hand; the accessor is a parameter giving the measurement keys, or \<open>None\<close>.
\<close>

definition check_dataset_consistent ::
  "(('b, 'm) dataset \<Rightarrow> string list option) \<Rightarrow> ('b, 'm) dataset \<Rightarrow> bool \<times> string option" where
  "check_dataset_consistent ds_measurements dataset =
     (let product_measurements = set (map fst (measurements (ds_type dataset))) in
      if card product_measurements = 0 then (True, None)
      else case ds_measurements dataset of
             None \<Rightarrow> (False, Some ''No measurements defined for a dataset'')
           | Some keys \<Rightarrow>
               if \<not> product_measurements \<subseteq> set keys
               then (False, Some ''measurement fields don't match type specification'')
               else (True, None))"

datatype 'e log_entry =
    ResolveError 'e
  | Inconsistency "uuid option" "string option"

text \<open>
  \<open>load_datasets\<close> walks the stream of (uri, document) pairs; the result is the list of
  yielded datasets together with the error log.
\<close>

fun load_datasets ::
  "(('b, 'm) dataset \<Rightarrow> string list option) \<Rightarrow>
   ('b docnav \<Rightarrow> string \<Rightarrow> ('b, 'm) dataset option \<times> 'e) \<Rightarrow>
   (string \<times> 'b docnav) list \<Rightarrow> ('b, 'm) dataset list \<times> 'e log_entry list" where
  "load_datasets ds_measurements ds_resolve [] = ([], [])"
| "load_datasets ds_measurements ds_resolve ((uri, ds) # rest) =
     (let (out, log) = load_datasets ds_measurements ds_resolve rest in
      case ds_resolve ds uri of
        (None, err) \<Rightarrow> (out, ResolveError err # log)
      | (Some dataset, err) \<Rightarrow>
          (let (is_consistent, reason) = check_dataset_consistent ds_measurements dataset in
           if \<not> is_consistent then (out, Inconsistency (ds_id dataset) reason # log)
           else (dataset # out, log)))"

section \<open>Errors\<close>

text \<open>Exceptions of the source are values; \<open>Inl\<close> of a sum carries the raised exception.\<close>

datatype error =
    AssertionError
  | ValueError
  | AttributeError
  | TypeError
  | OverflowError
  | BadMatch string
  | InvalidDocException string

fun join :: "string \<Rightarrow> string list \<Rightarrow> string" where
  "join sep [] = []"
| "join sep [x] = x"
| "join sep (x # y # ys) = x @ sep @ join sep (y # ys)"

section \<open>Signature matcher (\<open>product_matcher\<close>)\<close>

record ('p, 's) rule =
  product :: 'p
  signature :: 's

text \<open>
  \<open>changes.contains\<close> (the containment test), \<open>doc.get('id')\<close> and the JSON rendering of
  the mismatch report are parameters: \<open>contains\<close>, \<open>doc_get_id\<close> and \<open>describe\<close>.
\<close>

definition single_product_matcher ::
  "('d \<Rightarrow> 's \<Rightarrow> bool) \<Rightarrow> ('d \<Rightarrow> 's \<Rightarrow> string) \<Rightarrow> ('p, 's) rule \<Rightarrow> 'd \<Rightarrow> error + 'p" where
  "single_product_matcher contains describe rule doc =
     (if contains doc (signature rule) then Inr (product rule)
      else Inl (BadMatch (''Dataset metadata did not match product signature.''
                          @ describe doc (signature rule))))"

definition match ::
  "('d \<Rightarrow> 's \<Rightarrow> bool) \<Rightarrow> ('d \<Rightarrow> string option) \<Rightarrow> ('m product, 's) rule list \<Rightarrow>
   'd \<Rightarrow> error + 'm product" where
  "match contains doc_get_id rules doc =
     (let matched = map product (filter (\<lambda>rule. contains doc (signature rule)) rules) in
      if length matched = 1 then Inr (matched ! 0)
      else
        let doc_id = (case doc_get_id doc of Some i \<Rightarrow> i | None \<Rightarrow> ''<missing id>'') in
        if length matched = 0
        then Inl (BadMatch (''No matching Product found for dataset '' @ doc_id))
        else Inl (BadMatch (''Auto match failed, dataset '' @ doc_id
                            @ '' matches several products:'' @ [CHR 0x0A] @ ''  ''
                            @ join '','' (map name matched))))"

definition product_matcher ::
  "('d \<Rightarrow> 's \<Rightarrow> bool) \<Rightarrow> ('d \<Rightarrow> string option) \<Rightarrow> ('d \<Rightarrow> 's \<Rightarrow> string) \<Rightarrow>
   ('m product, 's) rule list \<Rightarrow> error + ('d \<Rightarrow> error + 'm product)" where
  "product_matcher contains doc_get_id describe rules =
     (if \<not> length rules > 0 then Inl AssertionError
      else if length rules = 1 then Inr (single_product_matcher contains describe (rules ! 0))
      else Inr (match contains doc_get_id rules))"

section \<open>Location reconciliation on update (\<open>loc_action\<close>)\<close>

text \<open>
  The world seen by \<open>update_cmd\<close>: the catalog, the calls made to a location action, the
  warnings logged and the lines echoed.
\<close>

record 'ix world =
  index_state :: 'ix
  location_calls :: "(uuid option \<times> string) list"
  warnings :: "string list"
  echoed :: "string list"

datatype 'r loc_result = RetNone | RetTrue | RetAction 'r

definition loc_action ::
  "bool \<Rightarrow> (uuid option \<Rightarrow> string \<Rightarrow> 'ix \<Rightarrow> 'r \<times> 'ix) \<Rightarrow> ('b, 'm) dataset \<Rightarrow> ('b, 'm) dataset \<Rightarrow>
   string \<Rightarrow> 'ix world \<Rightarrow> (error + 'r loc_result) \<times> 'ix world" where
  "loc_action dry_run action new_ds existing_ds action_name w =
     (if length (uris existing_ds) = 0 then (Inr RetNone, w)
      else if length (uris existing_ds) > 1
      then (Inr RetNone,
            w\<lparr>warnings := warnings w @
                 [''Refusing to '' @ action_name @ '' old location, there are several'']\<rparr>)
      else case uris new_ds of
        [new_uri] \<Rightarrow>
          (let old_uri = hd (uris existing_ds) in
           if new_uri = old_uri then (Inr RetNone, w)
           else if dry_run
           then (Inr RetTrue,
                 w\<lparr>echoed := echoed w @
                      [''Will '' @ action_name @ '' old location '' @ old_uri
                       @ '', and add new one '' @ new_uri]\<rparr>)
           else (let (r, ix) = action (ds_id existing_ds) old_uri (index_state w) in
                 (Inr (RetAction r),
                  w\<lparr>index_state := ix,
                    location_calls := location_calls w @ [(ds_id existing_ds, old_uri)]\<rparr>)))
      | _ \<Rightarrow> (Inl ValueError, w))"

text \<open>The three location policies of \<open>update_cmd\<close>.\<close>

datatype location_policy = Keep | Archive | Forget

definition update_loc ::
  "location_policy \<Rightarrow> bool \<Rightarrow> (uuid option \<Rightarrow> string \<Rightarrow> 'ix \<Rightarrow> 'r \<times> 'ix) \<Rightarrow>
   (uuid option \<Rightarrow> string \<Rightarrow> 'ix \<Rightarrow> 'r \<times> 'ix) \<Rightarrow> ('b, 'm) dataset \<Rightarrow> ('b, 'm) dataset \<Rightarrow>
   'ix world \<Rightarrow> (error + 'r loc_result) \<times> 'ix world" where
  "update_loc policy dry_run archive_location remove_location new_ds existing_ds w =
     (case policy of
        Archive \<Rightarrow> loc_action dry_run archive_location new_ds existing_ds ''archive'' w
      | Forget \<Rightarrow> loc_action dry_run remove_location new_ds existing_ds ''forget'' w
      | Keep \<Rightarrow> (Inr RetNone, w))"

section \<open>Date sequences (\<open>date_sequence\<close>)\<close>

datatype freq = YEARLY | MONTHLY | DAILY

record relativedelta =
  years :: int
  months :: int
  days :: int

definition FREQS :: "string \<rightharpoonup> freq" where
  "FREQS = [''y'' \<mapsto> YEARLY, ''m'' \<mapsto> MONTHLY, ''d'' \<mapsto> DAILY]"

definition DURATIONS :: "string \<rightharpoonup> string" where
  "DURATIONS = [''y'' \<mapsto> ''years'', ''m'' \<mapsto> ''months'', ''d'' \<mapsto> ''days'']"

text \<open>
  \<open>int(...)\<close> on a string is the parameter \<open>py_int\<close> (\<open>None\<close> where Python raises
  \<open>ValueError\<close>); \<open>duration[:-1]\<close> is \<open>butlast\<close> and \<open>duration[-1:]\<close> the last character, if any.
\<close>

definition split_duration :: "(string \<Rightarrow> int option) \<Rightarrow> string \<Rightarrow> error + int \<times> string" where
  "split_duration py_int duration =
     (case py_int (butlast duration) of
        None \<Rightarrow> Inl ValueError
      | Some cnt \<Rightarrow> Inr (cnt, if duration = [] then [] else [last duration]))"

definition parse_interval :: "(string \<Rightarrow> int option) \<Rightarrow> string \<Rightarrow> error + int \<times> freq" where
  "parse_interval py_int interval =
     (case split_duration py_int interval of
        Inl e \<Rightarrow> Inl e
      | Inr (cnt, units) \<Rightarrow>
          (case FREQS units of None \<Rightarrow> Inl ValueError | Some f \<Rightarrow> Inr (cnt, f)))"

definition relativedelta_kw :: "string \<Rightarrow> int \<Rightarrow> relativedelta" where
  "relativedelta_kw key cnt =
     \<lparr>years = (if key = ''years'' then cnt else 0),
      months = (if key = ''months'' then cnt else 0),
      days = (if key = ''days'' then cnt else 0)\<rparr>"

definition parse_duration :: "(string \<Rightarrow> int option) \<Rightarrow> string \<Rightarrow> error + relativedelta" where
  "parse_duration py_int duration =
     (case split_duration py_int duration of
        Inl e \<Rightarrow> Inl e
      | Inr (cnt, units) \<Rightarrow>
          (case DURATIONS units of
             None \<Rightarrow> Inl ValueError
           | Some key \<Rightarrow> Inr (relativedelta_kw key cnt)))"

text \<open>
  The recurrence rule \<open>rrule\<close> and the addition of a \<open>relativedelta\<close> to a date belong to
  the \<open>dateutil\<close> library; both are parameters
  (\<open>rrule\<close>, \<open>add_delta\<close>); the end date \<open>end\<close> is written \<open>until\<close>.  Dates are any ordered type.
\<close>

definition date_sequence ::
  "(string \<Rightarrow> int option) \<Rightarrow> (freq \<Rightarrow> int \<Rightarrow> 't \<Rightarrow> 't \<Rightarrow> 't list) \<Rightarrow> ('t \<Rightarrow> relativedelta \<Rightarrow> 't) \<Rightarrow>
   ('t::ord) \<Rightarrow> 't \<Rightarrow> string \<Rightarrow> string \<Rightarrow> error + ('t \<times> 't) list" where
  "date_sequence py_int rrule add_delta start until stats_duration step_size =
     (case parse_interval py_int step_size of
        Inl e \<Rightarrow> Inl e
      | Inr (step, frq) \<Rightarrow>
          (case parse_duration py_int stats_duration of
             Inl e \<Rightarrow> Inl e
           | Inr duration \<Rightarrow>
               Inr (map (\<lambda>start_date. (start_date, add_delta start_date duration))
                      (filter (\<lambda>start_date. add_delta start_date duration \<le> until)
                         (rrule frq step start until)))))"

section \<open>Derived-set walker (\<open>_get_derived_set\<close>) and restore (\<open>_restore_one\<close>)\<close>

text \<open>
  The catalog operations used here: \<open>index.datasets.get\<close> and \<open>index.datasets.get_derived\<close>.
\<close>

record ('b, 'm) index =
  datasets_get :: "uuid option \<Rightarrow> ('b, 'm) dataset option"
  datasets_get_derived :: "uuid option \<Rightarrow> ('b, 'm) dataset list"

text \<open>
  The loop state of \<open>_get_derived_set\<close>: the two Python sets, kept as duplicate-free lists,
  and (for the statements only) the sequence of identities handed to \<open>get_derived\<close>.
\<close>

record ('b, 'm) walk =
  derived_set :: "('b, 'm) dataset option list"
  to_process :: "uuid option list"
  visited :: "uuid option list"

text \<open>
  \<open>set.pop()\<close> removes an arbitrary element.  The choice is the parameter \<open>pop\<close>: from the
  calls made so far and the current contents it gives a position, taken modulo the size.
\<close>

definition walk_step ::
  "(uuid option list \<Rightarrow> uuid option list \<Rightarrow> nat) \<Rightarrow> ('b, 'm) index \<Rightarrow> ('b, 'm) walk \<Rightarrow> ('b, 'm) walk" where
  "walk_step pop index s =
     (let x = to_process s ! (pop (visited s) (to_process s) mod length (to_process s));
          derived = datasets_get_derived index x
      in \<lparr>derived_set = List.union (map Some derived) (derived_set s),
          to_process = List.union (map ds_id derived) (removeAll x (to_process s)),
          visited = visited s @ [x]\<rparr>)"

partial_function (option) walk_loop ::
  "(uuid option list \<Rightarrow> uuid option list \<Rightarrow> nat) \<Rightarrow> ('b, 'm) index \<Rightarrow> ('b, 'm) walk \<Rightarrow>
   ('b, 'm) walk option" where
  "walk_loop pop index s =
     (if to_process s = [] then Some s else walk_loop pop index (walk_step pop index s))"

definition get_derived_walk ::
  "(uuid option list \<Rightarrow> uuid option list \<Rightarrow> nat) \<Rightarrow> ('b, 'm) index \<Rightarrow> uuid option \<Rightarrow>
   ('b, 'm) walk option" where
  "get_derived_walk pop index id' =
     walk_loop pop index
       \<lparr>derived_set = [datasets_get index id'], to_process = [id'], visited = []\<rparr>"

definition get_derived_set ::
  "(uuid option list \<Rightarrow> uuid option list \<Rightarrow> nat) \<Rightarrow> ('b, 'm) index \<Rightarrow> uuid option \<Rightarrow>
   ('b, 'm) dataset option list option" where
  "get_derived_set pop index id' = map_option derived_set (get_derived_walk pop index id')"

text \<open>The derived relation of a catalog: (derived identity, identity it was derived from).\<close>

definition derived_rel :: "('b, 'm) index \<Rightarrow> (uuid option \<times> uuid option) set" where
  "derived_rel index = {(ds_id d, x) | d x. d \<in> set (datasets_get_derived index x)}"

text \<open>
  The \<open>datetime\<close> and \<open>timedelta\<close> arithmetic is that of the Python standard library.
  A \<open>datetime\<close> is the count of microseconds since
  0001-01-01T00:00:00 and ranges up to 9999-12-31T23:59:59.999999 (day ordinal 3652059);
  a \<open>timedelta\<close> is a count of microseconds.  Adding or subtracting a \<open>timedelta\<close> raises
  \<open>OverflowError\<close> when the result leaves the range.
\<close>

definition datetime_min :: int where
  "datetime_min = 0"

definition datetime_max :: int where
  "datetime_max = 3652059 * 86400 * 1000000 - 1"

definition datetime_add :: "int \<Rightarrow> int \<Rightarrow> error + int" where
  "datetime_add t delta =
     (if datetime_min \<le> t + delta \<and> t + delta \<le> datetime_max then Inr (t + delta)
      else Inl OverflowError)"

definition datetime_sub :: "int \<Rightarrow> int \<Rightarrow> error + int" where
  "datetime_sub t delta =
     (if datetime_min \<le> t - delta \<and> t - delta \<le> datetime_max then Inr (t - delta)
      else Inl OverflowError)"

text \<open>
  \<open>is_archived\<close> holds exactly when an archival time is recorded.  The chained comparison
  computes \<open>t - tolerance\<close> first and \<open>t + tolerance\<close> only when the first comparison holds;
  arithmetic or comparison with a missing time raises \<open>TypeError\<close>.
\<close>

definition within_tolerance :: "('b, 'm) dataset \<Rightarrow> int \<Rightarrow> ('b, 'm) dataset \<Rightarrow> error + bool" where
  "within_tolerance target_dataset tolerance dataset =
     (if \<not> is_archived dataset then Inr False
      else case archived_time target_dataset of
             None \<Rightarrow> Inl TypeError
           | Some t \<Rightarrow>
               (case datetime_sub t tolerance of
                  Inl e \<Rightarrow> Inl e
                | Inr lo \<Rightarrow>
                    (case archived_time dataset of
                       None \<Rightarrow> Inl TypeError
                     | Some a \<Rightarrow>
                         if lo \<le> a
                         then (case datetime_add t tolerance of
                                 Inl e \<Rightarrow> Inl e
                               | Inr hi \<Rightarrow> Inr (a \<le> hi))
                         else Inr False)))"

text \<open>\<open>set(filter(f, xs))\<close> where \<open>f\<close> may raise: the first exception ends the iteration.\<close>

fun filter_raising :: "('a \<Rightarrow> error + bool) \<Rightarrow> 'a list \<Rightarrow> error + 'a list" where
  "filter_raising f [] = Inr []"
| "filter_raising f (x # xs) =
     (case f x of
        Inl e \<Rightarrow> Inl e
      | Inr b \<Rightarrow>
          (case filter_raising f xs of
             Inl e \<Rightarrow> Inl e
           | Inr ys \<Rightarrow> Inr (if b then x # ys else ys)))"

text \<open>
  The outcome of \<open>_restore_one\<close>: the datasets echoed and the identities passed to
  \<open>index.datasets.restore\<close> (\<open>None\<close> in a dry run).  The outer \<open>option\<close> is \<open>None\<close> when the
  walker does not return; reading an attribute of a missing dataset raises \<open>AttributeError\<close>.
\<close>

record ('b, 'm) restore_outcome =
  restoring :: "('b, 'm) dataset list"
  restore_call :: "uuid option list option"

definition restore_one ::
  "(uuid option list \<Rightarrow> uuid option list \<Rightarrow> nat) \<Rightarrow> bool \<Rightarrow> uuid option \<Rightarrow> ('b, 'm) index \<Rightarrow> bool \<Rightarrow>
   int \<Rightarrow> (error + ('b, 'm) restore_outcome) option" where
  "restore_one pop dry_run id' index restore_derived tolerance =
     (let target_dataset = datasets_get index id' in
      case (if restore_derived then get_derived_set pop index id' else Some [target_dataset]) of
        None \<Rightarrow> None
      | Some to_process0 \<Rightarrow>
          Some (case those to_process0 of
                  None \<Rightarrow> Inl AttributeError
                | Some to_process1 \<Rightarrow>
                    (let to_process2 = filter is_archived to_process1 in
                     case (if restore_derived
                           then (case target_dataset of
                                   None \<Rightarrow> Inl AttributeError
                                 | Some target \<Rightarrow>
                                     (if is_archived target
                                      then filter_raising (within_tolerance target tolerance)
                                             to_process2
                                      else Inr to_process2))
                           else Inr to_process2) of
                       Inl e \<Rightarrow> Inl e
                     | Inr to_process3 \<Rightarrow>
                         Inr \<lparr>restoring = to_process3,
                              restore_call =
                                (if \<not> dry_run then Some (map ds_id to_process3) else None)\<rparr>)))"

text \<open>
  The invariant of the loop of \<open>_get_derived_set\<close> started at \<open>id'\<close>: the work set has no
  duplicates; every identity seen is reachable from \<open>id'\<close>; the datasets derived from an
  identity already handed to \<open>get_derived\<close> are in \<open>derived_set\<close> and their identities have
  been seen; \<open>derived_set\<close> holds only the root entry and derived datasets.
\<close>

definition walk_inv :: "('b, 'm) index \<Rightarrow> uuid option \<Rightarrow> ('b, 'm) walk \<Rightarrow> bool" where
  "walk_inv index id' s \<longleftrightarrow>
     distinct (to_process s) \<and>
     id' \<in> set (to_process s) \<union> set (visited s) \<and>
     set (to_process s) \<union> set (visited s) \<subseteq> {x. (x, id') \<in> (derived_rel index)\<^sup>*} \<and>
     (\<forall>x \<in> set (visited s). \<forall>d \<in> set (datasets_get_derived index x).
        ds_id d \<in> set (to_process s) \<union> set (visited s) \<and> Some d \<in> set (derived_set s)) \<and>
     datasets_get index id' \<in> set (derived_set s) \<and>
     set (derived_set s) \<subseteq>
       insert (datasets_get index id')
         (Some ` {d. \<exists>x. (x, id') \<in> (derived_rel index)\<^sup>* \<and> d \<in> set (datasets_get_derived index x)})"

text \<open>
  A sequence of calls in which every identity derived from a looked-up identity is itself
  looked up at a later position.
\<close>

definition followed :: "('b, 'm) index \<Rightarrow> uuid option list \<Rightarrow> bool" where
  "followed index v \<longleftrightarrow>
     (\<forall>i < length v. \<forall>d \<in> set (datasets_get_derived index (v ! i)).
        \<exists>j. i < j \<and> j < length v \<and> v ! j = ds_id d)"

section \<open>Sample inputs\<close>

text \<open>Concrete products, datasets and parameter instances on which the theorems are exercised.\<close>

definition sample_product :: "unit product" where
  "sample_product = \<lparr>name = ''ls8_nbar'', measurements = [(''red'', ()), (''nir'', ())]\<rparr>"

definition bare_product :: "unit product" where
  "bare_product = \<lparr>name = ''telemetry'', measurements = []\<rparr>"

definition sample_dataset :: "unit product \<Rightarrow> string \<Rightarrow> (unit, unit) dataset" where
  "sample_dataset p u = Dataset p (DocNav (Some u) () []) [] []"

definition sample_measurements :: "(unit, unit) dataset \<Rightarrow> string list option" where
  "sample_measurements d =
     (if ds_id d = Some ''a'' then Some [''nir'', ''red'', ''blue'']
      else if ds_id d = Some ''b'' then Some [''red'']
      else None)"

definition sample_resolve :: "unit docnav \<Rightarrow> string \<Rightarrow> (unit, unit) dataset option \<times> string" where
  "sample_resolve ds uri =
     (if nav_id ds = None then (None, ''no id'')
      else (Some (Dataset sample_product ds [uri] []), ''''))"

definition other_product :: "unit product" where
  "other_product = \<lparr>name = ''ls8_pq'', measurements = []\<rparr>"

text \<open>A sample document type: a flat field table; a signature is contained when each of its
  fields occurs in the document with the same value.\<close>

definition sample_contains :: "(string \<times> string) list \<Rightarrow> (string \<times> string) list \<Rightarrow> bool" where
  "sample_contains doc sig = list_all (\<lambda>(k, v). map_of doc k = Some v) sig"

definition sample_get_id :: "(string \<times> string) list \<Rightarrow> string option" where
  "sample_get_id doc = map_of doc ''id''"

definition sample_describe :: "(string \<times> string) list \<Rightarrow> (string \<times> string) list \<Rightarrow> string" where
  "sample_describe doc sig = []"

definition sample_rules :: "(unit product, (string \<times> string) list) rule list" where
  "sample_rules =
     [\<lparr>product = sample_product, signature = [(''platform'', ''LANDSAT_8'')]\<rparr>,
      \<lparr>product = other_product, signature = [(''format'', ''GeoTIFF'')]\<rparr>]"

text \<open>A sample catalog state: the list of (identity, uri) pairs archived or removed so far.\<close>

definition sample_archive_location ::
  "uuid option \<Rightarrow> string \<Rightarrow> (uuid option \<times> string) list \<Rightarrow> bool \<times> (uuid option \<times> string) list" where
  "sample_archive_location i u ix = (True, ix @ [(i, u)])"

definition sample_world :: "(uuid option \<times> string) list world" where
  "sample_world = \<lparr>index_state = [], location_calls = [], warnings = [], echoed = []\<rparr>"

definition located :: "string list \<Rightarrow> (unit, unit) dataset" where
  "located us = Dataset sample_product (DocNav (Some ''a'') () []) us []"

text \<open>Sample instances of the date parameters: dates are day numbers, \<open>int\<close> reads one
  decimal digit, the recurrence rule steps by whole days.\<close>

definition sample_int :: "string \<Rightarrow> int option" where
  "sample_int s = map_of [(''1'', 1), (''2'', 2), (''3'', 3), (''5'', 5), (''7'', 7)] s"

definition sample_rrule :: "freq \<Rightarrow> int \<Rightarrow> int \<Rightarrow> int \<Rightarrow> int list" where
  "sample_rrule f step start until =
     (if f = DAILY \<and> 0 < step
      then map (\<lambda>k. start + step * int k) [0 ..< nat ((until - start) div step + 1)]
      else [])"

definition sample_add_delta :: "int \<Rightarrow> relativedelta \<Rightarrow> int" where
  "sample_add_delta d r = d + 365 * years r + 30 * months r + days r"

text \<open>
  Sample catalogs.  In \<open>shared_index\<close> dataset c is derived from a both directly and through
  b; in \<open>cyclic_index\<close> dataset a is recorded as derived from itself; in \<open>restore_index\<close>
  a was archived 1000 seconds after the start of the datetime range and its derived datasets
  b, c at 1300 and 1900 seconds, d not at all; in \<open>cyclic_archived\<close> the archived dataset a
  is recorded as derived from itself.
  \<open>pop_first\<close> always takes the first element of the work set.
\<close>

definition entry :: "string \<Rightarrow> int option \<Rightarrow> (unit, unit) dataset" where
  "entry u t = \<lparr>ds_type = sample_product, metadata_doc = DocNav (Some u) () [], uris = [],
               sources = [], archived_time = t\<rparr>"



definition pop_first :: "uuid option list \<Rightarrow> uuid option list \<Rightarrow> nat" where
  "pop_first calls contents = 0"

definition seconds :: "int \<Rightarrow> int" where
  "seconds n = n * 1000000"

definition restore_index :: "(unit, unit) index" where
  "restore_index =
     \<lparr>datasets_get = (\<lambda>i. if i = Some ''a'' then Some (entry ''a'' (Some (seconds 1000))) else None),
      datasets_get_derived =
        (\<lambda>i. if i = Some ''a''
              then [entry ''b'' (Some (seconds 1300)), entry ''c'' (Some (seconds 1900)),
                    entry ''d'' None]
              else [])\<rparr>"

definition cyclic_archived :: "(unit, unit) index" where
  "cyclic_archived =
     \<lparr>datasets_get = (\<lambda>i. if i = Some ''a'' then Some (entry ''a'' (Some (seconds 1000))) else None),
      datasets_get_derived =
        (\<lambda>i. if i = Some ''a'' then [entry ''a'' (Some (seconds 1000))] else [])\<rparr>"

section \<open>Theorems\<close>

subsection \<open>Measurement consistency\<close>

text \<open>
  Claim C7.  \<open>check_dataset_consistent\<close> reports \<open>(True, None)\<close> when the product declares no
  measurements.  When the product declares some, it reports success exactly when the dataset
  defines measurements whose keys include every product measurement name; otherwise it
  reports \<open>False\<close> with a message, in particular when the dataset defines no measurements
  at all.  \<open>load_datasets\<close> yields exactly the resolved datasets that pass the check, in
  order: a failing dataset is dropped.
\<close>

theorem check_dataset_consistent_spec:
  "(measurements (ds_type d) = [] \<longrightarrow> check_dataset_consistent ms d = (True, None)) \<and>
   (measurements (ds_type d) \<noteq> [] \<longrightarrow>
      (check_dataset_consistent ms d = (True, None) \<longleftrightarrow>
         (\<exists>keys. ms d = Some keys \<and> fst ` set (measurements (ds_type d)) \<subseteq> set keys)) \<and>
      (check_dataset_consistent ms d \<noteq> (True, None) \<longrightarrow>
         (\<exists>msg. check_dataset_consistent ms d = (False, Some msg))) \<and>
      (ms d = None \<longrightarrow>
         check_dataset_consistent ms d = (False, Some ''No measurements defined for a dataset''))) \<and>
   fst (load_datasets ms ds_resolve docs) =
     filter (\<lambda>d. fst (check_dataset_consistent ms d))
       (List.map_filter (\<lambda>(uri, ds). fst (ds_resolve ds uri)) docs)"
proof -
  have "fst (load_datasets ms ds_resolve docs) =
     filter (\<lambda>d. fst (check_dataset_consistent ms d))
       (List.map_filter (\<lambda>(uri, ds). fst (ds_resolve ds uri)) docs)"
    by (induction docs) (auto simp: List.map_filter_simps split: prod.splits option.splits)
  then show ?thesis
    by (auto simp: check_dataset_consistent_def Let_def split: option.splits)
qed

theorem check_dataset_consistent_spec_witness:
  "check_dataset_consistent sample_measurements (sample_dataset bare_product ''c'') = (True, None) \<and>
   check_dataset_consistent sample_measurements (sample_dataset sample_product ''a'') = (True, None) \<and>
   check_dataset_consistent sample_measurements (sample_dataset sample_product ''b'') =
     (False, Some ''measurement fields don't match type specification'') \<and>
   check_dataset_consistent sample_measurements (sample_dataset sample_product ''c'') =
     (False, Some ''No measurements defined for a dataset'') \<and>
   fst (load_datasets sample_measurements sample_resolve
          [(''u1'', DocNav (Some ''a'') () []), (''u2'', DocNav (Some ''b'') () []),
           (''u3'', DocNav None () [])]) =
     [Dataset sample_product (DocNav (Some ''a'') () []) [''u1''] []]"
proof -
  have e: "measurements (ds_type (sample_dataset bare_product ''c'')) = []"
    by (simp add: sample_dataset_def bare_product_def Dataset_def)
  have n: "measurements (ds_type (sample_dataset sample_product u)) \<noteq> []" for u
    by (simp add: sample_dataset_def sample_product_def Dataset_def)
  have a: "\<exists>keys. sample_measurements (sample_dataset sample_product ''a'') = Some keys \<and>
             fst ` set (measurements (ds_type (sample_dataset sample_product ''a''))) \<subseteq> set keys"
    by (simp add: sample_measurements_def sample_dataset_def sample_product_def Dataset_def ds_id_def)
  have c: "sample_measurements (sample_dataset sample_product ''c'') = None"
    by (simp add: sample_measurements_def sample_dataset_def Dataset_def ds_id_def)
  have b: "check_dataset_consistent sample_measurements (sample_dataset sample_product ''b'') =
     (False, Some ''measurement fields don't match type specification'')"
    by (simp add: check_dataset_consistent_def sample_measurements_def sample_dataset_def
          sample_product_def Dataset_def ds_id_def)
  have l: "filter (\<lambda>d. fst (check_dataset_consistent sample_measurements d))
       (List.map_filter (\<lambda>(uri, ds). fst (sample_resolve ds uri))
          [(''u1'', DocNav (Some ''a'') () []), (''u2'', DocNav (Some ''b'') () []),
           (''u3'', DocNav None () [])]) =
     [Dataset sample_product (DocNav (Some ''a'') () []) [''u1''] []]"
    by (simp add: List.map_filter_simps sample_resolve_def check_dataset_consistent_def
          sample_measurements_def sample_product_def Dataset_def ds_id_def)
  note T1 = check_dataset_consistent_spec [of "sample_dataset bare_product ''c''" sample_measurements]
  note T2 = check_dataset_consistent_spec [of "sample_dataset sample_product ''a''" sample_measurements]
  note T3 = check_dataset_consistent_spec [of "sample_dataset sample_product ''c''" sample_measurements
        sample_resolve "[(''u1'', DocNav (Some ''a'') () []), (''u2'', DocNav (Some ''b'') () []),
           (''u3'', DocNav None () [])]"]
  have 1: "check_dataset_consistent sample_measurements (sample_dataset bare_product ''c'') = (True, None)"
    using T1 e by blast
  have 2: "check_dataset_consistent sample_measurements (sample_dataset sample_product ''a'') = (True, None)"
    using T2 n a by blast
  have 3: "check_dataset_consistent sample_measurements (sample_dataset sample_product ''c'') =
     (False, Some ''No measurements defined for a dataset'')"
    using T3 n c by blast
  have 4: "fst (load_datasets sample_measurements sample_resolve
          [(''u1'', DocNav (Some ''a'') () []), (''u2'', DocNav (Some ''b'') () []),
           (''u3'', DocNav None () [])]) =
     [Dataset sample_product (DocNav (Some ''a'') () []) [''u1''] []]"
    using T3 l by presburger
  show ?thesis using 1 2 3 4 b by blast
qed

subsection \<open>Signature matcher\<close>

text \<open>
  Claim C6.  Built from two or more rules, \<open>product_matcher\<close> yields a matcher which, on a
  document, returns the product of the only rule whose signature the document contains;
  raises \<open>BadMatch\<close> saying that no product was found for the document's identity when no
  rule matches; and raises \<open>BadMatch\<close> listing the names of all matched products when more
  than one rule matches.
\<close>

theorem product_matcher_several_rules:
  assumes "length rules \<ge> 2"
  shows "\<exists>m. product_matcher contains doc_get_id describe rules = Inr m \<and>
     (\<forall>doc. let matched = map product (filter (\<lambda>rule. contains doc (signature rule)) rules);
                doc_id = (case doc_get_id doc of Some i \<Rightarrow> i | None \<Rightarrow> ''<missing id>'') in
        (\<forall>p. matched = [p] \<longrightarrow> m doc = Inr p) \<and>
        (matched = [] \<longrightarrow>
           m doc = Inl (BadMatch (''No matching Product found for dataset '' @ doc_id))) \<and>
        (length matched > 1 \<longrightarrow>
           m doc = Inl (BadMatch (''Auto match failed, dataset '' @ doc_id
                            @ '' matches several products:'' @ [CHR 0x0A] @ ''  ''
                            @ join '','' (map name matched)))))"
proof -
  have m: "product_matcher contains doc_get_id describe rules = Inr (match contains doc_get_id rules)"
    using assms by (cases rules) (auto simp: product_matcher_def)
  have "(\<forall>p. matched = [p] \<longrightarrow> r = Inr p) \<and>
        (matched = [] \<longrightarrow> r = Inl (BadMatch (''No matching Product found for dataset '' @ doc_id))) \<and>
        (length matched > 1 \<longrightarrow>
           r = Inl (BadMatch (''Auto match failed, dataset '' @ doc_id
                            @ '' matches several products:'' @ [CHR 0x0A] @ ''  ''
                            @ join '','' (map name matched))))"
    if "r = (if length matched = 1 then Inr (matched ! 0)
      else if length matched = 0
        then Inl (BadMatch (''No matching Product found for dataset '' @ doc_id))
        else Inl (BadMatch (''Auto match failed, dataset '' @ doc_id
                            @ '' matches several products:'' @ [CHR 0x0A] @ ''  ''
                            @ join '','' (map name matched))))"
    for matched :: "'c product list" and r doc_id
    using that by (cases matched) auto
  then show ?thesis
    unfolding m by (simp add: match_def Let_def)
qed

theorem product_matcher_several_rules_witness:
  "\<exists>m. product_matcher sample_contains sample_get_id sample_describe sample_rules = Inr m \<and>
     m [(''id'', ''d1''), (''platform'', ''LANDSAT_8'')] = Inr sample_product \<and>
     m [(''id'', ''d2''), (''platform'', ''SENTINEL_2'')] =
       Inl (BadMatch ''No matching Product found for dataset d2'') \<and>
     m [(''platform'', ''LANDSAT_8''), (''format'', ''GeoTIFF'')] =
       Inl (BadMatch (''Auto match failed, dataset <missing id> matches several products:''
                      @ [CHR 0x0A] @ ''  ls8_nbar,ls8_pq''))"
proof -
  have len: "length sample_rules \<ge> 2" by (simp add: sample_rules_def)
  obtain m where m: "product_matcher sample_contains sample_get_id sample_describe sample_rules = Inr m"
    and spec: "\<And>doc. let matched = map product (filter (\<lambda>rule. sample_contains doc (signature rule)) sample_rules);
                doc_id = (case sample_get_id doc of Some i \<Rightarrow> i | None \<Rightarrow> ''<missing id>'') in
        (\<forall>p. matched = [p] \<longrightarrow> m doc = Inr p) \<and>
        (matched = [] \<longrightarrow>
           m doc = Inl (BadMatch (''No matching Product found for dataset '' @ doc_id))) \<and>
        (length matched > 1 \<longrightarrow>
           m doc = Inl (BadMatch (''Auto match failed, dataset '' @ doc_id
                            @ '' matches several products:'' @ [CHR 0x0A] @ ''  ''
                            @ join '','' (map name matched))))"
    using product_matcher_several_rules [OF len, of sample_contains sample_get_id sample_describe]
    by blast
  have 1: "m [(''id'', ''d1''), (''platform'', ''LANDSAT_8'')] = Inr sample_product"
    using spec [of "[(''id'', ''d1''), (''platform'', ''LANDSAT_8'')]"]
    by (simp add: Let_def sample_rules_def sample_contains_def sample_get_id_def)
  have 2: "m [(''id'', ''d2''), (''platform'', ''SENTINEL_2'')] =
       Inl (BadMatch ''No matching Product found for dataset d2'')"
    using spec [of "[(''id'', ''d2''), (''platform'', ''SENTINEL_2'')]"]
    by (simp add: Let_def sample_rules_def sample_contains_def sample_get_id_def)
  have 3: "m [(''platform'', ''LANDSAT_8''), (''format'', ''GeoTIFF'')] =
       Inl (BadMatch (''Auto match failed, dataset <missing id> matches several products:''
                      @ [CHR 0x0A] @ ''  ls8_nbar,ls8_pq''))"
    using spec [of "[(''platform'', ''LANDSAT_8''), (''format'', ''GeoTIFF'')]"]
    by (simp add: Let_def sample_rules_def sample_contains_def sample_get_id_def sample_product_def
          other_product_def)
  show ?thesis using m 1 2 3 by blast
qed

subsection \<open>Location reconciliation\<close>

text \<open>
  Claim C8.  During update the location action (\<open>archive_location\<close> or \<open>remove_location\<close>)
  is called only when the existing dataset has exactly one location and that location
  differs from the location of the new document (and the run is not a dry run).  With more
  than one existing location the step is skipped with a warning and nothing else changes;
  with no existing location, or with an unchanged location, nothing happens at all.
\<close>

theorem update_loc_single_changed_location:
  assumes "update_loc policy dry_run archive_location remove_location new_ds existing_ds w = (r, w')"
  shows
   "((location_calls w' \<noteq> location_calls w \<or> index_state w' \<noteq> index_state w \<or>
      (\<exists>x. r = Inr (RetAction x))) \<longrightarrow>
       policy \<noteq> Keep \<and> \<not> dry_run \<and>
       (\<exists>old_uri new_uri. uris existing_ds = [old_uri] \<and> uris new_ds = [new_uri] \<and> new_uri \<noteq> old_uri)) \<and>
    (length (uris existing_ds) > 1 \<longrightarrow>
       r = Inr RetNone \<and> index_state w' = index_state w \<and> location_calls w' = location_calls w \<and>
       echoed w' = echoed w \<and>
       (policy \<noteq> Keep \<longrightarrow> (\<exists>msg. warnings w' = warnings w @ [msg]))) \<and>
    (uris existing_ds = [] \<longrightarrow> r = Inr RetNone \<and> w' = w) \<and>
    (length (uris existing_ds) = 1 \<and> uris new_ds = uris existing_ds \<longrightarrow> r = Inr RetNone \<and> w' = w) \<and>
    (\<forall>old_uri new_uri.
       uris existing_ds = [old_uri] \<and> uris new_ds = [new_uri] \<and> new_uri \<noteq> old_uri \<and>
       \<not> dry_run \<and> policy \<noteq> Keep \<longrightarrow>
       (let action = (if policy = Archive then archive_location else remove_location) in
        r = Inr (RetAction (fst (action (ds_id existing_ds) old_uri (index_state w)))) \<and>
        w' = w\<lparr>index_state := snd (action (ds_id existing_ds) old_uri (index_state w)),
                location_calls := location_calls w @ [(ds_id existing_ds, old_uri)]\<rparr>))"
  using assms
  by (cases policy; cases "uris existing_ds"; cases "uris new_ds")
     (auto simp: update_loc_def loc_action_def Let_def split: list.splits if_splits prod.splits)

theorem update_loc_single_changed_location_witness:
  "update_loc Archive False sample_archive_location sample_archive_location
      (located [''file:///new'']) (located [''file:///old'']) sample_world =
     (Inr (RetAction True),
      sample_world\<lparr>index_state := [(Some ''a'', ''file:///old'')],
                   location_calls := [(Some ''a'', ''file:///old'')]\<rparr>) \<and>
   update_loc Forget False sample_archive_location sample_archive_location
      (located [''file:///new'']) (located [''file:///old'', ''file:///older'']) sample_world =
     (Inr RetNone,
      sample_world\<lparr>warnings := [''Refusing to forget old location, there are several'']\<rparr>) \<and>
   update_loc Archive False sample_archive_location sample_archive_location
      (located [''file:///new'']) (located []) sample_world = (Inr RetNone, sample_world) \<and>
   update_loc Archive False sample_archive_location sample_archive_location
      (located [''file:///old'']) (located [''file:///old'']) sample_world = (Inr RetNone, sample_world)"
proof -
  let ?u = "update_loc Archive False sample_archive_location sample_archive_location"
  obtain r1 w1 where 1: "?u (located [''file:///new'']) (located [''file:///old'']) sample_world = (r1, w1)"
    by fastforce
  obtain r3 w3 where 3: "?u (located [''file:///new'']) (located []) sample_world = (r3, w3)"
    by fastforce
  obtain r4 w4 where 4: "?u (located [''file:///old'']) (located [''file:///old'']) sample_world = (r4, w4)"
    by fastforce
  have a: "r1 = Inr (RetAction True) \<and>
      w1 = sample_world\<lparr>index_state := [(Some ''a'', ''file:///old'')],
                   location_calls := [(Some ''a'', ''file:///old'')]\<rparr>"
    using update_loc_single_changed_location [OF 1]
    by (simp add: located_def Dataset_def ds_id_def sample_archive_location_def sample_world_def)
  have c: "r3 = Inr RetNone \<and> w3 = sample_world"
    using update_loc_single_changed_location [OF 3] by (simp add: located_def Dataset_def)
  have d: "r4 = Inr RetNone \<and> w4 = sample_world"
    using update_loc_single_changed_location [OF 4] by (simp add: located_def Dataset_def)
  have b: "update_loc Forget False sample_archive_location sample_archive_location
      (located [''file:///new'']) (located [''file:///old'', ''file:///older'']) sample_world =
     (Inr RetNone,
      sample_world\<lparr>warnings := [''Refusing to forget old location, there are several'']\<rparr>)"
    by (simp add: update_loc_def loc_action_def located_def Dataset_def sample_world_def)
  show ?thesis using 1 3 4 a b c d by simp
qed

subsection \<open>Date sequences\<close>

text \<open>
  Claim C10.  Every pair \<open>(start_date, end_date)\<close> yielded by \<open>date_sequence\<close> has
  \<open>end_date = start_date + parse_duration(stats_duration)\<close> and \<open>end_date \<le> end\<close>: the
  yielded spans are those of the recurrence rule whose end is not past \<open>end\<close>, whole, and
  the others are left out.
\<close>

theorem date_sequence_spans_end_by_until:
  assumes "date_sequence py_int rrule add_delta start until stats_duration step_size = Inr spans"
  shows "\<exists>step frq duration.
           parse_interval py_int step_size = Inr (step, frq) \<and>
           parse_duration py_int stats_duration = Inr duration \<and>
           spans = map (\<lambda>start_date. (start_date, add_delta start_date duration))
                     (filter (\<lambda>start_date. add_delta start_date duration \<le> until)
                        (rrule frq step start until)) \<and>
           (\<forall>(start_date, end_date) \<in> set spans.
              end_date = add_delta start_date duration \<and> end_date \<le> until \<and>
              start_date \<in> set (rrule frq step start until))"
  using assms by (auto simp: date_sequence_def split: sum.splits prod.splits)

theorem date_sequence_spans_end_by_until_witness:
  "date_sequence sample_int sample_rrule sample_add_delta 0 10 ''5d'' ''3d'' =
     Inr [(0, 5), (3, 8)]"
proof -
  have r: "sample_rrule DAILY 3 0 10 = [0, 3, 6, 9]"
    by (simp add: sample_rrule_def upt_rec)
  have pi: "parse_interval sample_int ''3d'' = Inr (3, DAILY)"
    by (simp add: parse_interval_def split_duration_def sample_int_def FREQS_def)
  have pd: "parse_duration sample_int ''5d'' = Inr \<lparr>years = 0, months = 0, days = 5\<rparr>"
    by (simp add: parse_duration_def split_duration_def sample_int_def DURATIONS_def
          relativedelta_kw_def)
  obtain spans where s: "date_sequence sample_int sample_rrule sample_add_delta 0 10 ''5d'' ''3d'' = Inr spans"
    by (simp add: date_sequence_def pi pd)
  from date_sequence_spans_end_by_until [OF s]
  have "spans = [(0, 5), (3, 8)]"
    by (simp add: pi pd r sample_add_delta_def)
  with s show ?thesis by simp
qed

subsection \<open>Derived-set walker\<close>

lemma mset_union_split:
  "\<exists>K. mset (List.union xs ys) = mset ys + K \<and> set_mset K \<subseteq> set xs"
proof (induction xs arbitrary: ys)
  case Nil
  then show ?case by (simp add: List.union_def)
next
  case (Cons x xs)
  obtain K where K: "mset (List.union xs (List.insert x ys)) = mset (List.insert x ys) + K"
    "set_mset K \<subseteq> set xs"
    using Cons.IH by blast
  have u: "List.union (x # xs) ys = List.union xs (List.insert x ys)"
    by (simp add: List.union_def)
  show ?case
  proof (cases "x \<in> set ys")
    case True
    then show ?thesis using K u by (intro exI [of _ K]) auto
  next
    case False
    then show ?thesis using K u by (intro exI [of _ "add_mset x K"]) auto
  qed
qed

lemma popped_in_to_process:
  "to_process s \<noteq> [] \<Longrightarrow>
   to_process s ! (pop (visited s) (to_process s) mod length (to_process s)) \<in> set (to_process s)"
  by simp

lemma walk_step_decreases:
  assumes "to_process s \<noteq> []" "walk_inv index id' s"
  shows "(mset (to_process (walk_step pop index s)), mset (to_process s))
           \<in> mult1 (Restr (derived_rel index) {x. (x, id') \<in> (derived_rel index)\<^sup>*})"
proof -
  define x where "x = to_process s ! (pop (visited s) (to_process s) mod length (to_process s))"
  have xin: "x \<in> set (to_process s)" using assms(1) by (simp add: x_def)
  have dist: "distinct (to_process s)" using assms(2) by (simp add: walk_inv_def)
  have reach: "(x, id') \<in> (derived_rel index)\<^sup>*"
    using assms(2) xin by (auto simp: walk_inv_def)
  have tp: "to_process (walk_step pop index s) =
      List.union (map ds_id (datasets_get_derived index x)) (removeAll x (to_process s))"
    by (simp add: walk_step_def Let_def x_def)
  from mset_union_split [of "map ds_id (datasets_get_derived index x)" "removeAll x (to_process s)"]
  obtain K where K: "mset (to_process (walk_step pop index s)) = mset (removeAll x (to_process s)) + K"
    "set_mset K \<subseteq> set (map ds_id (datasets_get_derived index x))"
    unfolding tp by (elim exE conjE)
  have r: "removeAll x (to_process s) = remove1 x (to_process s)"
    using dist by (simp add: distinct_remove1_removeAll)
  have m: "mset (to_process s) = add_mset x (mset (removeAll x (to_process s)))"
    unfolding r using xin by simp
  have "(b, x) \<in> Restr (derived_rel index) {x. (x, id') \<in> (derived_rel index)\<^sup>*}" if "b \<in># K" for b
  proof -
    have e: "(b, x) \<in> derived_rel index" using that K(2) by (auto simp: derived_rel_def)
    then have "(b, id') \<in> (derived_rel index)\<^sup>*" using reach by (rule converse_rtrancl_into_rtrancl)
    then show ?thesis using e reach by simp
  qed
  then show ?thesis using m K(1) by (rule mult1I [rotated 2])
qed

lemma walk_step_inv:
  assumes "walk_inv index id' s" "to_process s \<noteq> []"
  shows "walk_inv index id' (walk_step pop index s)"
proof -
  define x where "x = to_process s ! (pop (visited s) (to_process s) mod length (to_process s))"
  have xin: "x \<in> set (to_process s)" using assms(2) by (simp add: x_def)
  have st: "walk_step pop index s =
      \<lparr>derived_set = List.union (map Some (datasets_get_derived index x)) (derived_set s),
       to_process = List.union (map ds_id (datasets_get_derived index x)) (removeAll x (to_process s)),
       visited = visited s @ [x]\<rparr>"
    by (simp add: walk_step_def Let_def x_def)
  have reach: "(x, id') \<in> (derived_rel index)\<^sup>*"
    using assms(1) xin by (auto simp: walk_inv_def)
  have child: "(ds_id d, id') \<in> (derived_rel index)\<^sup>*" if "d \<in> set (datasets_get_derived index x)" for d
  proof -
    have "(ds_id d, x) \<in> derived_rel index" using that by (auto simp: derived_rel_def)
    then show ?thesis using reach by (rule converse_rtrancl_into_rtrancl)
  qed
  show ?thesis
    using assms(1) xin reach child unfolding st walk_inv_def
    by (auto simp: distinct_removeAll)
qed

lemma walk_loop_returns:
  assumes wf: "wf (Restr (derived_rel index) {x. (x, id') \<in> (derived_rel index)\<^sup>*})"
  shows "walk_inv index id' s \<Longrightarrow>
         \<exists>s'. walk_loop pop index s = Some s' \<and> walk_inv index id' s' \<and> to_process s' = []"
proof -
  have "wf (inv_image (mult1 (Restr (derived_rel index) {x. (x, id') \<in> (derived_rel index)\<^sup>*}))
              (\<lambda>s :: ('a, 'b) walk. mset (to_process s)))"
    using wf by (intro wf_inv_image wf_mult1)
  then show "walk_inv index id' s \<Longrightarrow> ?thesis"
  proof (induction s rule: wf_induct_rule)
    case (less s)
    show ?case
    proof (cases "to_process s = []")
      case True
      then show ?thesis using less.prems by (subst walk_loop.simps) simp
    next
      case False
      have "(walk_step pop index s, s) \<in>
          inv_image (mult1 (Restr (derived_rel index) {x. (x, id') \<in> (derived_rel index)\<^sup>*}))
            (\<lambda>s. mset (to_process s))"
        using walk_step_decreases [OF False less.prems] by simp
      moreover have "walk_inv index id' (walk_step pop index s)"
        using less.prems False by (rule walk_step_inv)
      ultimately obtain s' where "walk_loop pop index (walk_step pop index s) = Some s'"
        "walk_inv index id' s'" "to_process s' = []"
        using less.IH by blast
      then show ?thesis using False by (subst walk_loop.simps) simp
    qed
  qed
qed

lemma walk_inv_final:
  assumes "walk_inv index id' s" "to_process s = []"
  shows "set (visited s) = {x. (x, id') \<in> (derived_rel index)\<^sup>*}"
    and "set (derived_set s) =
       insert (datasets_get index id')
         (Some ` {d. \<exists>x. (x, id') \<in> (derived_rel index)\<^sup>* \<and> d \<in> set (datasets_get_derived index x)})"
proof -
  have closed: "x \<in> set (visited s)" if "(x, id') \<in> (derived_rel index)\<^sup>*" for x
    using that
  proof (induction rule: converse_rtrancl_induct)
    case base
    then show ?case using assms by (simp add: walk_inv_def)
  next
    case (step y z)
    then show ?case using assms by (auto simp: walk_inv_def derived_rel_def)
  qed
  show v: "set (visited s) = {x. (x, id') \<in> (derived_rel index)\<^sup>*}"
    using closed assms by (auto simp: walk_inv_def)
  show "set (derived_set s) =
       insert (datasets_get index id')
         (Some ` {d. \<exists>x. (x, id') \<in> (derived_rel index)\<^sup>* \<and> d \<in> set (datasets_get_derived index x)})"
  proof
    show "set (derived_set s) \<subseteq> insert (datasets_get index id')
         (Some ` {d. \<exists>x. (x, id') \<in> (derived_rel index)\<^sup>* \<and> d \<in> set (datasets_get_derived index x)})"
      using assms(1) by (simp add: walk_inv_def)
    show "insert (datasets_get index id')
         (Some ` {d. \<exists>x. (x, id') \<in> (derived_rel index)\<^sup>* \<and> d \<in> set (datasets_get_derived index x)})
         \<subseteq> set (derived_set s)"
      using assms(1) closed by (auto simp: walk_inv_def)
  qed
qed

lemma walk_inv_init:
  "walk_inv index id' \<lparr>derived_set = [datasets_get index id'], to_process = [id'], visited = []\<rparr>"
  by (simp add: walk_inv_def)


lemma walk_loop_done: "to_process s = [] \<Longrightarrow> walk_loop pop index s = Some s"
  by (subst walk_loop.simps) simp

lemma walk_loop_more:
  "to_process s \<noteq> [] \<Longrightarrow> walk_loop pop index s = walk_loop pop index (walk_step pop index s)"
  by (subst walk_loop.simps) simp

lemma walk_loop_partial:
  assumes "walk_loop pop index s = Some s'" "walk_inv index id' s"
  shows "walk_inv index id' s' \<and> to_process s' = []"
proof -
  have "walk_inv index id' s \<longrightarrow> walk_inv index id' s' \<and> to_process s' = []"
  proof (rule walk_loop.raw_induct
      [where P = "\<lambda>pop index s s'. walk_inv index id' s \<longrightarrow> walk_inv index id' s' \<and> to_process s' = []",
        OF _ assms(1)])
    fix f pop and index :: "('a, 'b) index" and s s'
    assume IH: "\<And>pop index s s'. f pop index s = Some s' \<Longrightarrow>
        walk_inv index id' s \<longrightarrow> walk_inv index id' s' \<and> to_process s' = []"
      and eq: "(if to_process s = [] then Some s else f pop index (walk_step pop index s)) = Some s'"
    show "walk_inv index id' s \<longrightarrow> walk_inv index id' s' \<and> to_process s' = []"
    proof (cases "to_process s = []")
      case True
      then show ?thesis using eq by simp
    next
      case False
      then have "f pop index (walk_step pop index s) = Some s'" using eq by simp
      from IH [OF this] show ?thesis using False by (blast intro: walk_step_inv)
    qed
  qed
  then show ?thesis using assms(2) by simp
qed



text \<open>
  A run that returns: every identity of the work set is popped later on, and so is every
  identity derived from a popped one.
\<close>

lemma followed_Cons:
  assumes "followed index v" "\<forall>d \<in> set (datasets_get_derived index x). ds_id d \<in> set v"
  shows "followed index (x # v)"
  unfolding followed_def
proof (intro allI impI ballI)
  fix i d assume i: "i < length (x # v)" and d: "d \<in> set (datasets_get_derived index ((x # v) ! i))"
  show "\<exists>j. i < j \<and> j < length (x # v) \<and> (x # v) ! j = ds_id d"
  proof (cases i)
    case 0
    then have "ds_id d \<in> set v" using assms(2) d by simp
    then obtain j where "j < length v" "v ! j = ds_id d" by (auto simp: in_set_conv_nth)
    then show ?thesis using 0 by (intro exI [of _ "Suc j"]) simp
  next
    case (Suc k)
    then have "k < length v" "d \<in> set (datasets_get_derived index (v ! k))" using i d by simp_all
    then obtain j where "k < j" "j < length v" "v ! j = ds_id d"
      using assms(1) unfolding followed_def by blast
    then show ?thesis using Suc by (intro exI [of _ "Suc j"]) simp
  qed
qed

lemma walk_loop_trace:
  assumes "walk_loop pop index s = Some s'"
  shows "\<exists>later. visited s' = visited s @ later \<and> set (to_process s) \<subseteq> set later \<and>
           followed index later"
proof (rule walk_loop.raw_induct
    [where P = "\<lambda>pop index s s'. \<exists>later. visited s' = visited s @ later \<and>
                  set (to_process s) \<subseteq> set later \<and> followed index later", OF _ assms])
  fix f pop and index :: "('a, 'b) index" and s s'
  assume IH: "\<And>pop index s s'. f pop index s = Some s' \<Longrightarrow>
      \<exists>later. visited s' = visited s @ later \<and> set (to_process s) \<subseteq> set later \<and>
        followed index later"
    and eq: "(if to_process s = [] then Some s else f pop index (walk_step pop index s)) = Some s'"
  show "\<exists>later. visited s' = visited s @ later \<and> set (to_process s) \<subseteq> set later \<and>
        followed index later"
  proof (cases "to_process s = []")
    case True
    then have "s' = s" using eq by simp
    then show ?thesis using True by (intro exI [of _ "[]"]) (simp add: followed_def)
  next
    case False
    define x where "x = to_process s ! (pop (visited s) (to_process s) mod length (to_process s))"
    have st: "visited (walk_step pop index s) = visited s @ [x]"
      "to_process (walk_step pop index s) =
         List.union (map ds_id (datasets_get_derived index x)) (removeAll x (to_process s))"
      by (simp_all add: walk_step_def Let_def x_def)
    have "f pop index (walk_step pop index s) = Some s'" using eq False by simp
    from IH [OF this] obtain later where l: "visited s' = visited (walk_step pop index s) @ later"
      "set (to_process (walk_step pop index s)) \<subseteq> set later" "followed index later"
      by blast
    have ch: "\<forall>d \<in> set (datasets_get_derived index x). ds_id d \<in> set later"
      using l(2) unfolding st(2) by auto
    have "set (to_process s) \<subseteq> set (x # later)"
      using l(2) unfolding st(2) by auto
    moreover have "followed index (x # later)" using l(3) ch by (rule followed_Cons)
    moreover have "visited s' = visited s @ (x # later)" using l(1) st(1) by simp
    ultimately show ?thesis by blast
  qed
qed

lemma followedD:
  "followed index v \<Longrightarrow> i < length v \<Longrightarrow> d \<in> set (datasets_get_derived index (v ! i)) \<Longrightarrow>
   \<exists>j. i < j \<and> j < length v \<and> v ! j = ds_id d"
  unfolding followed_def by blast

lemma last_index:
  fixes v :: "'a list"
  assumes "x \<in> set v"
  shows "Max {i. i < length v \<and> v ! i = x} < length v"
    and "v ! Max {i. i < length v \<and> v ! i = x} = x"
proof -
  have fin: "finite {i. i < length v \<and> v ! i = x}" by simp
  have ne: "{i. i < length v \<and> v ! i = x} \<noteq> {}" using assms by (auto simp: in_set_conv_nth)
  have "Max {i. i < length v \<and> v ! i = x} \<in> {i. i < length v \<and> v ! i = x}"
    using fin ne by (rule Max_in)
  then show "Max {i. i < length v \<and> v ! i = x} < length v"
    and "v ! Max {i. i < length v \<and> v ! i = x} = x" by blast+
qed

lemma last_index_ge:
  fixes v :: "'a list"
  assumes "j < length v" "v ! j = x"
  shows "j \<le> Max {i. i < length v \<and> v ! i = x}"
proof (rule Max_ge)
  show "finite {i. i < length v \<and> v ! i = x}" by simp
  show "j \<in> {i. i < length v \<and> v ! i = x}" using assms by blast
qed

lemma followed_wf:
  assumes "followed index v"
  shows "wf (Restr (derived_rel index) (set v))"
proof -
  let ?last = "\<lambda>x. Max {i. i < length v \<and> v ! i = x}"
  have "Restr (derived_rel index) (set v) \<subseteq> measure (\<lambda>x. length v - ?last x)"
  proof
    fix p assume p: "p \<in> Restr (derived_rel index) (set v)"
    obtain c x where cx: "p = (c, x)" by (cases p)
    have c: "c \<in> set v" and x: "x \<in> set v" and r: "(c, x) \<in> derived_rel index"
      using p unfolding cx by blast+
    from r obtain d where d: "d \<in> set (datasets_get_derived index x)" "c = ds_id d"
      unfolding derived_rel_def by blast
    have lx: "?last x < length v" "v ! ?last x = x" using x by (rule last_index)+
    have "d \<in> set (datasets_get_derived index (v ! ?last x))" unfolding lx(2) by (rule d(1))
    from followedD [OF assms lx(1) this]
    obtain j where j: "?last x < j" "j < length v" "v ! j = c" unfolding d(2) by blast
    have "j \<le> ?last c" using j(2,3) by (rule last_index_ge)
    moreover have "?last c < length v" using c by (rule last_index(1))
    ultimately have "length v - ?last c < length v - ?last x" using j(1) by arith
    then show "p \<in> measure (\<lambda>x. length v - ?last x)" unfolding cx by simp
  qed
  then show ?thesis by (rule wf_subset [OF wf_measure])
qed

lemma walk_returns_wf:
  assumes "get_derived_walk pop index id' = Some s"
  shows "wf (Restr (derived_rel index) {x. (x, id') \<in> (derived_rel index)\<^sup>*})"
proof -
  let ?s0 = "\<lparr>derived_set = [datasets_get index id'], to_process = [id'], visited = []\<rparr>"
  have run: "walk_loop pop index ?s0 = Some s" using assms by (simp add: get_derived_walk_def)
  have "walk_inv index id' s \<and> to_process s = []"
    using run walk_inv_init by (rule walk_loop_partial)
  then have v: "set (visited s) = {x. (x, id') \<in> (derived_rel index)\<^sup>*}"
    using walk_inv_final(1) by blast
  from walk_loop_trace [OF run] have "followed index (visited s)" by simp
  then have "wf (Restr (derived_rel index) (set (visited s)))" by (rule followed_wf)
  then show ?thesis unfolding v .
qed

lemma walk_wf_returns:
  assumes "wf (Restr (derived_rel index) {x. (x, id') \<in> (derived_rel index)\<^sup>*})"
  shows "\<exists>s. get_derived_walk pop index id' = Some s"
  using walk_loop_returns [OF assms walk_inv_init, of pop] by (auto simp: get_derived_walk_def)

lemma walk_result:
  assumes "get_derived_walk pop index id' = Some s"
  shows "set (derived_set s) =
             insert (datasets_get index id')
               (Some ` {d. \<exists>x. (x, id') \<in> (derived_rel index)\<^sup>* \<and>
                              d \<in> set (datasets_get_derived index x)})"
    and "set (visited s) = {x. (x, id') \<in> (derived_rel index)\<^sup>*}"
proof -
  have "walk_inv index id' s \<and> to_process s = []"
    using assms walk_inv_init unfolding get_derived_walk_def by (rule walk_loop_partial)
  then show "set (derived_set s) =
             insert (datasets_get index id')
               (Some ` {d. \<exists>x. (x, id') \<in> (derived_rel index)\<^sup>* \<and>
                              d \<in> set (datasets_get_derived index x)})"
    and "set (visited s) = {x. (x, id') \<in> (derived_rel index)\<^sup>*}"
    using walk_inv_final by blast+
qed






subsection \<open>Cascading restore\<close>

lemma those_no_None:
  "None \<notin> set xs \<Longrightarrow> \<exists>ys. those xs = Some ys \<and> xs = map Some ys"
proof (induction xs)
  case Nil
  then show ?case by simp
next
  case (Cons x xs)
  then obtain ys where "those xs = Some ys" "xs = map Some ys" by auto
  moreover obtain y where "x = Some y" using Cons.prems by (cases x) auto
  ultimately show ?case by (intro exI [of _ "y # ys"]) simp
qed

lemma filter_raising_ok:
  "\<forall>x \<in> set xs. f x = Inr (g x) \<Longrightarrow> filter_raising f xs = Inr (filter g xs)"
  by (induction xs) simp_all

lemma filter_raising_err:
  "x \<in> set xs \<Longrightarrow> f x = Inl e \<Longrightarrow> \<forall>y \<in> set xs. f y = Inl e \<or> (\<exists>b. f y = Inr b) \<Longrightarrow>
   filter_raising f xs = Inl e"
proof (induction xs)
  case Nil
  then show ?case by simp
next
  case (Cons y ys)
  show ?case
  proof (cases "f y")
    case (Inl e')
    then have "e' = e" using Cons.prems(3) by auto
    then show ?thesis using Inl by simp
  next
    case (Inr b)
    then have "x \<in> set ys" using Cons.prems(1,2) by auto
    then have "filter_raising f ys = Inl e" using Cons.prems(2,3) by (intro Cons.IH) simp_all
    then show ?thesis using Inr by simp
  qed
qed

lemma within_tolerance_cases:
  assumes "archived_time target = Some T" "archived_time d = Some a"
  shows "within_tolerance target tolerance d =
     (if \<not> (datetime_min \<le> T - tolerance \<and> T - tolerance \<le> datetime_max) then Inl OverflowError
      else if \<not> T - tolerance \<le> a then Inr False
      else if \<not> (datetime_min \<le> T + tolerance \<and> T + tolerance \<le> datetime_max) then Inl OverflowError
      else Inr (a \<le> T + tolerance))"
  using assms by (simp add: within_tolerance_def is_archived_def datetime_sub_def datetime_add_def)

lemma restore_one_None:
  "restore_one pop dry_run id' index True tolerance = None \<longleftrightarrow>
     get_derived_walk pop index id' = None"
  by (simp add: restore_one_def Let_def get_derived_set_def split: option.splits)

lemma restore_one_eval:
  assumes "get_derived_walk pop index id' = Some s" "those (derived_set s) = Some ds"
    "datasets_get index id' = Some target" "is_archived target"
  shows "restore_one pop dry_run id' index True tolerance =
     Some (case filter_raising (within_tolerance target tolerance) (filter is_archived ds) of
             Inl e \<Rightarrow> Inl e
           | Inr kept \<Rightarrow>
               Inr \<lparr>restoring = kept,
                    restore_call = (if \<not> dry_run then Some (map ds_id kept) else None)\<rparr>)"
  using assms by (simp add: restore_one_def Let_def get_derived_set_def)

lemma derived_members:
  assumes s: "get_derived_walk pop index id' = Some s" and g: "datasets_get index id' = Some target"
  shows "\<exists>ds. those (derived_set s) = Some ds \<and>
           set ds = insert target {d. \<exists>x. (x, id') \<in> (derived_rel index)\<^sup>* \<and>
                                          d \<in> set (datasets_get_derived index x)}"
proof -
  let ?X = "{d. \<exists>x. (x, id') \<in> (derived_rel index)\<^sup>* \<and> d \<in> set (datasets_get_derived index x)}"
  have S: "set (derived_set s) = insert (Some target) (Some ` ?X)"
    using walk_result(1) [OF s] g by simp
  then have "None \<notin> set (derived_set s)" by auto
  then obtain ds where ds: "those (derived_set s) = Some ds" "derived_set s = map Some ds"
    using those_no_None by blast
  have "Some ` set ds = Some ` insert target ?X"
    using S unfolding ds(2) by simp
  then have "set ds = insert target ?X"
    by (rule inj_image_eq_iff [THEN iffD1, rotated]) simp
  then show ?thesis using ds(1) by blast
qed

lemma restore_index_walk:
  "map_option derived_set (get_derived_walk pop_first restore_index (Some ''a'')) =
     Some [Some (entry ''d'' None), Some (entry ''c'' (Some (seconds 1900))),
           Some (entry ''b'' (Some (seconds 1300))), Some (entry ''a'' (Some (seconds 1000)))]"
  by (simp add: get_derived_walk_def walk_loop_done walk_loop_more
        walk_step_def Let_def restore_index_def pop_first_def entry_def List.union_def
        List.insert_def ds_id_def)

lemma cyclic_archived_walk: "get_derived_walk pop cyclic_archived (Some ''a'') = None"
proof (rule ccontr)
  assume "get_derived_walk pop cyclic_archived (Some ''a'') \<noteq> None"
  then obtain s where "get_derived_walk pop cyclic_archived (Some ''a'') = Some s" by blast
  then have w: "wf (Restr (derived_rel cyclic_archived)
                     {x. (x, Some ''a'') \<in> (derived_rel cyclic_archived)\<^sup>*})"
    by (rule walk_returns_wf)
  have "entry ''a'' (Some (seconds 1000)) \<in> set (datasets_get_derived cyclic_archived (Some ''a''))"
    by (simp add: cyclic_archived_def)
  moreover have "ds_id (entry ''a'' (Some (seconds 1000))) = Some ''a''"
    by (simp add: entry_def ds_id_def)
  ultimately have "(Some ''a'', Some ''a'') \<in> derived_rel cyclic_archived"
    unfolding derived_rel_def by force
  then have "(Some ''a'', Some ''a'') \<in> Restr (derived_rel cyclic_archived)
                     {x. (x, Some ''a'') \<in> (derived_rel cyclic_archived)\<^sup>*}"
    by simp
  with wf_not_refl [OF w] show False by blast
qed


text \<open>
  Claim C9, as amended.  In a cascading restore (\<open>restore_derived\<close>) of a target archived at
  time \<open>T\<close> with tolerance \<open>tolerance\<close>, \<open>_restore_one\<close> returns exactly when the derived
  relation restricted to the identities reachable from the target is well-founded; on a
  catalog where it is not, the walker never returns and nothing is restored.  When it
  returns and both \<open>T - tolerance\<close> and \<open>T + tolerance\<close> are within the range of \<open>datetime\<close>,
  the datasets restored are exactly those of the derived set (the target and everything
  transitively derived from it) that are archived and whose archival time lies in the
  closed window from \<open>T - tolerance\<close> to \<open>T + tolerance\<close>.  When \<open>T - tolerance\<close> leaves the
  range, or \<open>T + tolerance\<close> does and some member of the derived set was archived at or after
  \<open>T - tolerance\<close>, the call raises \<open>OverflowError\<close> and restores nothing.  With tolerance 600
  seconds, a derived dataset archived 300 seconds after \<open>T\<close> is restored and one archived
  900 seconds after \<open>T\<close> is not.
\<close>

theorem restore_one_within_tolerance:
  assumes g: "datasets_get index id' = Some target" and t: "archived_time target = Some T"
  shows "(restore_one pop dry_run id' index True tolerance = None \<longleftrightarrow>
            \<not> wf (Restr (derived_rel index) {x. (x, id') \<in> (derived_rel index)\<^sup>*})) \<and>
         (wf (Restr (derived_rel index) {x. (x, id') \<in> (derived_rel index)\<^sup>*}) \<longrightarrow>
            (if datetime_min \<le> T - tolerance \<and> T - tolerance \<le> datetime_max \<and>
                (datetime_min \<le> T + tolerance \<and> T + tolerance \<le> datetime_max \<or>
                 \<not> (\<exists>d a. d \<in> insert target {d. \<exists>x. (x, id') \<in> (derived_rel index)\<^sup>* \<and>
                                                     d \<in> set (datasets_get_derived index x)} \<and>
                           archived_time d = Some a \<and> T - tolerance \<le> a))
             then \<exists>out. restore_one pop dry_run id' index True tolerance = Some (Inr out) \<and>
                    restore_call out = (if dry_run then None else Some (map ds_id (restoring out))) \<and>
                    set (restoring out) =
                      {d. d \<in> insert target {d. \<exists>x. (x, id') \<in> (derived_rel index)\<^sup>* \<and>
                                                     d \<in> set (datasets_get_derived index x)} \<and>
                          is_archived d \<and>
                          (\<exists>a. archived_time d = Some a \<and> T - tolerance \<le> a \<and> a \<le> T + tolerance)}
             else restore_one pop dry_run id' index True tolerance = Some (Inl OverflowError)))"
proof (intro conjI impI)
  show "restore_one pop dry_run id' index True tolerance = None \<longleftrightarrow>
            \<not> wf (Restr (derived_rel index) {x. (x, id') \<in> (derived_rel index)\<^sup>*})"
    unfolding restore_one_None
    using walk_returns_wf [of pop index id'] walk_wf_returns [of index id' pop] by fastforce
next
  let ?DS = "insert target {d. \<exists>x. (x, id') \<in> (derived_rel index)\<^sup>* \<and>
                               d \<in> set (datasets_get_derived index x)}"
  let ?lo = "datetime_min \<le> T - tolerance \<and> T - tolerance \<le> datetime_max"
  let ?hi = "datetime_min \<le> T + tolerance \<and> T + tolerance \<le> datetime_max"
  let ?f = "within_tolerance target tolerance"
  let ?g = "\<lambda>d. \<exists>a. archived_time d = Some a \<and> T - tolerance \<le> a \<and> a \<le> T + tolerance"
  assume "wf (Restr (derived_rel index) {x. (x, id') \<in> (derived_rel index)\<^sup>*})"
  then obtain s where s: "get_derived_walk pop index id' = Some s"
    using walk_wf_returns by blast
  from derived_members [OF s g] obtain ds where ds: "those (derived_set s) = Some ds" "set ds = ?DS"
    by blast
  have arch: "is_archived target" using t by (simp add: is_archived_def)
  note R = restore_one_eval [OF s ds(1) g arch, of dry_run tolerance]
  have tin: "target \<in> set (filter is_archived ds)" using ds(2) arch by simp
  have val: "\<exists>a. archived_time d = Some a" if "d \<in> set (filter is_archived ds)" for d
    using that by (simp add: is_archived_def)
  show "if datetime_min \<le> T - tolerance \<and> T - tolerance \<le> datetime_max \<and> (?hi \<or> \<not> (\<exists>d a. d \<in> ?DS \<and> archived_time d = Some a \<and> T - tolerance \<le> a))
        then \<exists>out. restore_one pop dry_run id' index True tolerance = Some (Inr out) \<and>
               restore_call out = (if dry_run then None else Some (map ds_id (restoring out))) \<and>
               set (restoring out) = {d. d \<in> ?DS \<and> is_archived d \<and> ?g d}
        else restore_one pop dry_run id' index True tolerance = Some (Inl OverflowError)"
  proof (cases "?lo \<and> (?hi \<or> \<not> (\<exists>d a. d \<in> ?DS \<and> archived_time d = Some a \<and> T - tolerance \<le> a))")
    case True
    have "\<forall>d \<in> set (filter is_archived ds). ?f d = Inr (?g d)"
    proof
      fix d assume d: "d \<in> set (filter is_archived ds)"
      then obtain a where a: "archived_time d = Some a" using val by blast
      have din: "d \<in> ?DS" using d ds(2) by simp
      show "?f d = Inr (?g d)"
      proof (cases "T - tolerance \<le> a")
        case False
        then show ?thesis using True a by (simp add: within_tolerance_cases [OF t a])
      next
        case le: True
        then have "?hi" using True din a by blast
        then show ?thesis using True a le by (simp add: within_tolerance_cases [OF t a])
      qed
    qed
    then have F: "filter_raising ?f (filter is_archived ds) = Inr (filter ?g (filter is_archived ds))"
      by (rule filter_raising_ok)
    let ?out = "\<lparr>restoring = filter ?g (filter is_archived ds),
                 restore_call = (if \<not> dry_run then Some (map ds_id (filter ?g (filter is_archived ds)))
                                 else None)\<rparr>"
    have 1: "restore_one pop dry_run id' index True tolerance = Some (Inr ?out)"
      unfolding R F by simp
    have 2: "restore_call ?out = (if dry_run then None else Some (map ds_id (restoring ?out)))"
      by simp
    have 3: "set (restoring ?out) = {d. d \<in> ?DS \<and> is_archived d \<and> ?g d}"
      using ds(2) by auto
    have "\<exists>out. restore_one pop dry_run id' index True tolerance = Some (Inr out) \<and>
               restore_call out = (if dry_run then None else Some (map ds_id (restoring out))) \<and>
               set (restoring out) = {d. d \<in> ?DS \<and> is_archived d \<and> ?g d}"
      using 1 2 3 by (intro exI [of _ ?out] conjI)
    then show ?thesis using True by simp
  next
    case False
    have all: "\<forall>d \<in> set (filter is_archived ds). ?f d = Inl OverflowError \<or> (\<exists>b. ?f d = Inr b)"
    proof
      fix d assume "d \<in> set (filter is_archived ds)"
      then obtain a where a: "archived_time d = Some a" using val by blast
      show "?f d = Inl OverflowError \<or> (\<exists>b. ?f d = Inr b)"
        unfolding within_tolerance_cases [OF t a] by (cases "?f d") auto
    qed
    have "\<exists>d \<in> set (filter is_archived ds). ?f d = Inl OverflowError"
    proof (cases ?lo)
      case nlo: False
      have "?f target = Inl OverflowError" using nlo by (simp add: within_tolerance_cases [OF t t])
      then show ?thesis using tin by blast
    next
      case lo: True
      then have nhi: "\<not> ?hi" and ex: "\<exists>d a. d \<in> ?DS \<and> archived_time d = Some a \<and> T - tolerance \<le> a"
        using False by blast+
      then obtain d a where d: "d \<in> ?DS" "archived_time d = Some a" "T - tolerance \<le> a" by blast
      have "d \<in> set (filter is_archived ds)" using d(1,2) ds(2) by (simp add: is_archived_def)
      moreover have "?f d = Inl OverflowError"
        using lo nhi d(3) by (simp add: within_tolerance_cases [OF t d(2)])
      ultimately show ?thesis by blast
    qed
    then obtain d where "d \<in> set (filter is_archived ds)" "?f d = Inl OverflowError" by blast
    then have F: "filter_raising ?f (filter is_archived ds) = Inl OverflowError"
      using all by (rule filter_raising_err)
    have "restore_one pop dry_run id' index True tolerance = Some (Inl OverflowError)"
      unfolding R F by simp
    then show ?thesis using False by simp
  qed
qed

theorem restore_one_within_tolerance_witness:
  "(\<exists>out. restore_one pop_first False (Some ''a'') restore_index True (seconds 600) = Some (Inr out) \<and>
         restore_call out = Some (map ds_id (restoring out)) \<and>
         set (restoring out) = {entry ''a'' (Some (seconds 1000)), entry ''b'' (Some (seconds 1300))} \<and>
         entry ''c'' (Some (seconds 1900)) \<notin> set (restoring out)) \<and>
   restore_one pop_first False (Some ''a'') restore_index True (seconds 100000000000)
     = Some (Inl OverflowError)"
proof -
  let ?a = "entry ''a'' (Some (seconds 1000))"
  let ?DS = "insert ?a {d. \<exists>x. (x, Some ''a'') \<in> (derived_rel restore_index)\<^sup>* \<and>
                             d \<in> set (datasets_get_derived restore_index x)}"
  have g: "datasets_get restore_index (Some ''a'') = Some ?a"
    by (simp add: restore_index_def)
  have t: "archived_time ?a = Some (seconds 1000)"
    by (simp add: entry_def)
  note T1 = restore_one_within_tolerance [OF g t, of pop_first False "seconds 600"]
  note T2 = restore_one_within_tolerance [OF g t, of pop_first False "seconds 100000000000"]
  obtain s where s: "get_derived_walk pop_first restore_index (Some ''a'') = Some s"
    and S: "derived_set s = [Some (entry ''d'' None), Some (entry ''c'' (Some (seconds 1900))),
           Some (entry ''b'' (Some (seconds 1300))), Some ?a]"
    using restore_index_walk by (cases "get_derived_walk pop_first restore_index (Some ''a'')") simp_all
  have "restore_one pop_first False (Some ''a'') restore_index True (seconds 600) \<noteq> None"
    using s by (simp add: restore_one_None)
  then have w: "wf (Restr (derived_rel restore_index)
                     {x. (x, Some ''a'') \<in> (derived_rel restore_index)\<^sup>*})"
    using T1 [THEN conjunct1] by simp
  from derived_members [OF s g] obtain ds where "those (derived_set s) = Some ds" "set ds = ?DS"
    by blast
  then have DS: "?DS = {entry ''d'' None, entry ''c'' (Some (seconds 1900)),
                        entry ''b'' (Some (seconds 1300)), ?a}"
    unfolding S by auto
  have lo: "datetime_min \<le> seconds 1000 - seconds 600 \<and> seconds 1000 - seconds 600 \<le> datetime_max"
    and hi: "datetime_min \<le> seconds 1000 + seconds 600 \<and> seconds 1000 + seconds 600 \<le> datetime_max"
    by (simp_all add: datetime_min_def datetime_max_def seconds_def)
  from T1 [THEN conjunct2, rule_format, OF w] lo hi obtain out where
    out: "restore_one pop_first False (Some ''a'') restore_index True (seconds 600) = Some (Inr out)"
      "restore_call out = (if False then None else Some (map ds_id (restoring out)))"
      "set (restoring out) =
         {d. d \<in> ?DS \<and> is_archived d \<and>
             (\<exists>a. archived_time d = Some a \<and> seconds 1000 - seconds 600 \<le> a \<and>
                  a \<le> seconds 1000 + seconds 600)}"
    by auto
  have r: "set (restoring out) = {?a, entry ''b'' (Some (seconds 1300))}"
    unfolding out(3) DS by (auto simp: entry_def is_archived_def seconds_def)
  have n: "entry ''c'' (Some (seconds 1900)) \<notin> set (restoring out)"
    unfolding r by (simp add: entry_def seconds_def)
  have 1: "\<exists>out. restore_one pop_first False (Some ''a'') restore_index True (seconds 600) = Some (Inr out) \<and>
         restore_call out = Some (map ds_id (restoring out)) \<and>
         set (restoring out) = {?a, entry ''b'' (Some (seconds 1300))} \<and>
         entry ''c'' (Some (seconds 1900)) \<notin> set (restoring out)"
    using out(1,2) r n by (intro exI [of _ out]) simp
  have nlo: "\<not> (datetime_min \<le> seconds 1000 - seconds 100000000000)"
    by (simp add: datetime_min_def seconds_def)
  have 2: "restore_one pop_first False (Some ''a'') restore_index True (seconds 100000000000)
     = Some (Inl OverflowError)"
    using T2 [THEN conjunct2, rule_format, OF w] nlo by simp
  show ?thesis using 1 2 by blast
qed

theorem restore_one_counterexample:
  "(\<forall>pop dry_run. restore_one pop dry_run (Some ''a'') cyclic_archived True (seconds 600) = None) \<and>
   datasets_get cyclic_archived (Some ''a'') = Some (entry ''a'' (Some (seconds 1000))) \<and>
   within_tolerance (entry ''a'' (Some (seconds 1000))) (seconds 600)
     (entry ''a'' (Some (seconds 1000))) = Inr True"
proof (intro conjI allI)
  fix pop dry_run
  show "restore_one pop dry_run (Some ''a'') cyclic_archived True (seconds 600) = None"
    unfolding restore_one_None by (rule cyclic_archived_walk)
  show "datasets_get cyclic_archived (Some ''a'') = Some (entry ''a'' (Some (seconds 1000)))"
    by (simp add: cyclic_archived_def)
  show "within_tolerance (entry ''a'' (Some (seconds 1000))) (seconds 600)
     (entry ''a'' (Some (seconds 1000))) = Inr True"
    by (simp add: within_tolerance_def is_archived_def entry_def datetime_sub_def datetime_add_def
        datetime_min_def datetime_max_def seconds_def)
qed

end
